theory Spec2Isabelle
  imports Main "HOL-Library.AList"
begin

section \<open>JavaScript values\<close>

text \<open>
  The values the library handles. A function value is \<open>Fun n\<close>, the number being its
  identity. An object is \<open>Obj a ps\<close>: \<open>a\<close> is its address (its identity) and \<open>ps\<close> are
  its own enumerable properties in insertion order. Equality of two values is therefore
  identity together with content; \<open>deep_equal\<close> below compares content only.
\<close>

datatype jsval =
    Undefined
  | Null
  | Bool bool
  | Num int
  | Str string
  | Fun nat
  | Obj nat "(string \<times> jsval) list"

type_synonym props = "(string \<times> jsval) list"

fun typeof :: "jsval \<Rightarrow> string" where
  "typeof Undefined = ''undefined''"
| "typeof Null = ''object''"
| "typeof (Bool b) = ''boolean''"
| "typeof (Num n) = ''number''"
| "typeof (Str s) = ''string''"
| "typeof (Fun f) = ''function''"
| "typeof (Obj a ps) = ''object''"

text \<open>The condition of \<open>c ? x : y\<close> and the value of \<open>!!c\<close>.\<close>

fun truthy :: "jsval \<Rightarrow> bool" where
  "truthy Undefined = False"
| "truthy Null = False"
| "truthy (Bool b) = b"
| "truthy (Num n) = (n \<noteq> 0)"
| "truthy (Str s) = (s \<noteq> [])"
| "truthy (Fun f) = True"
| "truthy (Obj a ps) = True"

text \<open>Reading \<open>o[k]\<close> from a property list: a missing key reads as \<open>undefined\<close>.\<close>

definition lookup :: "props \<Rightarrow> string \<Rightarrow> jsval" where
  "lookup ps k = (case map_of ps k of Some v \<Rightarrow> v | None \<Rightarrow> Undefined)"

text \<open>
  The own property \<open>k\<close> of a value, if it has one. Only objects carry properties in this
  model.
\<close>

fun own :: "jsval \<Rightarrow> string \<Rightarrow> jsval option" where
  "own (Obj a ps) k = map_of ps k"
| "own v k = None"

text \<open>
  Reading \<open>v.k\<close> where \<open>v\<close> is known not to be \<open>undefined\<close> or \<open>null\<close>: a value without
  that property reads as \<open>undefined\<close>.
\<close>

definition get :: "jsval \<Rightarrow> string \<Rightarrow> jsval" where
  "get v k = (case own v k of Some x \<Rightarrow> x | None \<Rightarrow> Undefined)"

text \<open>
  Deep equality: the same own properties in the same order with deep-equal values,
  whatever the addresses of the objects. Functions and primitives are compared as they
  are.
\<close>

fun deep_equal :: "jsval \<Rightarrow> jsval \<Rightarrow> bool"
  and deep_equal_props :: "props \<Rightarrow> props \<Rightarrow> bool" where
  "deep_equal (Obj a ps) (Obj b qs) = deep_equal_props ps qs"
| "deep_equal x y = (x = y)"
| "deep_equal_props [] [] = True"
| "deep_equal_props ((k, v) # ps) ((k', v') # qs) =
     (k = k' \<and> deep_equal v v' \<and> deep_equal_props ps qs)"
| "deep_equal_props ps qs = False"

section \<open>The instance\<close>

text \<open>
  An \<open>AsyncSimpleIterator\<close> instance: \<open>this.options\<close> and the listeners registered on
  it, as pairs of event name and listener in registration order.
\<close>

record simple_iterator =
  options :: jsval
  listeners :: "(string \<times> jsval) list"

section \<open>The collaborators of \<open>utils\<close>\<close>

text \<open>
  Modelled from the spec: \<open>utils.extend\<close> (\<open>utils.js\<close> is not among the sources). The spec
  describes a shallow merge: sources are applied in order, later sources win key by key,
  and a value is taken over as it is, never merged into the value it replaces. \<open>assign\<close>
  is the step for one source, \<open>target[key] = source[key]\<close> for each key of the source in
  order. A source that is not an object (\<open>this.options\<close> before construction, an omitted
  \<open>options\<close> argument, an absent \<open>context\<close>) contributes nothing. The target is given
  by its property list; the object it belongs to is named at the place of call.
\<close>

definition assign :: "props \<Rightarrow> props \<Rightarrow> props" where
  "assign target source =
     fold (\<lambda>key. AList.update key (lookup source key)) (map fst source) target"

definition extend :: "props \<Rightarrow> jsval list \<Rightarrow> props" where
  "extend target sources =
     fold (\<lambda>s t. case s of Obj a ps \<Rightarrow> assign t ps | _ \<Rightarrow> t) sources target"

subsection \<open>The emitter\<close>

text \<open>
  Modelled from the spec: \<open>on\<close> of the emitter (an external package, reached through
  \<open>utils.Emitter\<close> and \<open>compose-emitter\<close>). \<open>on\<close> registers a listener that receives
  all later \<open>emit\<close> calls for that name, in registration order.
\<close>

definition on :: "string \<Rightarrow> jsval \<Rightarrow> simple_iterator \<Rightarrow> simple_iterator" where
  "on name listener self = self\<lparr>listeners := listeners self @ [(name, listener)]\<rparr>"

definition listeners_of :: "string \<Rightarrow> simple_iterator \<Rightarrow> jsval list" where
  "listeners_of name self = map snd (filter (\<lambda>p. fst p = name) (listeners self))"

section \<open>The library\<close>

text \<open>
  A thrown \<open>TypeError\<close> with its message, and the function \<open>wrapIterator\<close> returns:
  the iterator it wraps, bound to the instance.
\<close>

datatype error = TypeError string

datatype decorated = Decorated jsval

subsection \<open>\<open>src/index.js\<close>\<close>

text \<open>
  \<open>defaultOptions\<close>, lines 74 to 82. \<open>a\<close> is the next free address: the object literal is
  allocated at \<open>a\<close> and \<open>new utils.Emitter()\<close>, an object without own properties, at
  \<open>Suc a\<close>.
\<close>

definition defaultOptions :: "nat \<Rightarrow> jsval \<Rightarrow> simple_iterator \<Rightarrow> simple_iterator" where
  "defaultOptions a optionsArg self =
     (let ps = extend [(''emitter'', Obj (Suc a) []), (''settle'', Bool False)]
                 [options self, optionsArg];
          s = lookup ps ''settle'';
          ps' = AList.update ''settle''
                  (if typeof s = ''boolean'' then Bool (truthy s) else Bool False) ps
      in self\<lparr>options := Obj a ps'\<rparr>)"

text \<open>
  The constructor, lines 52 to 62: \<open>this.options\<close> is not set when \<open>defaultOptions\<close> runs;
  the emitter methods are then composed onto the instance, which has no listener yet.
\<close>

definition AsyncSimpleIterator :: "nat \<Rightarrow> jsval \<Rightarrow> simple_iterator" where
  "AsyncSimpleIterator a optionsArg =
     defaultOptions a optionsArg \<lparr>options = Undefined, listeners = []\<rparr>"

text \<open>The hook names of line 151 and the loop of lines 155 to 160 over them.\<close>

definition hooks :: "string list" where
  "hooks = [''beforeEach'', ''afterEach'', ''error'']"

fun register_hooks :: "string list \<Rightarrow> simple_iterator \<Rightarrow> simple_iterator" where
  "register_hooks [] self = self"
| "register_hooks (name # names) self =
     register_hooks names
       (if typeof (get (options self) name) = ''function''
        then on name (get (options self) name) self
        else self)"

definition expect_function :: string where
  "expect_function = ''async-simple-iterator: expect `iterator` to be function''"

definition not_an_object :: string where
  "not_an_object = ''this.options is not an object''"

text \<open>
  \<open>wrapIterator\<close>, lines 142 to 163. \<open>a\<close> is the next free address: with an \<open>options\<close>
  argument the merged context is allocated at \<open>a\<close> and the merged options at \<open>Suc a\<close>;
  without one \<open>this.options\<close> stays the same object and only its \<open>context\<close> is assigned.
  \<open>this.options\<close> is an object on every instance the constructor built; the last branch
  stands for the engine's error on reading \<open>opts.context\<close> otherwise. The result is the
  outcome of the call together with the instance after it.
\<close>

definition wrapIterator ::
  "nat \<Rightarrow> jsval \<Rightarrow> jsval \<Rightarrow> simple_iterator \<Rightarrow> (error + decorated) \<times> simple_iterator" where
  "wrapIterator a iterator optionsArg self =
     (if typeof iterator \<noteq> ''function'' then (Inl (TypeError expect_function), self)
      else case options self of
        Obj oa ops \<Rightarrow>
          (let ctx = (if truthy optionsArg
                      then Obj a (extend [] [lookup ops ''context'', get optionsArg ''context''])
                      else lookup ops ''context'');
               merged = (if truthy optionsArg
                         then Obj (Suc a) (AList.update ''context'' ctx
                                (extend [] [Obj oa ops, optionsArg]))
                         else Obj oa (AList.update ''context'' ctx ops))
           in (Inr (Decorated iterator),
               register_hooks hooks (self\<lparr>options := merged\<rparr>)))
      | _ \<Rightarrow> (Inl (TypeError not_an_object), self))"

subsection \<open>\<open>src/unnamed/part_000\<close>\<close>

text \<open>\<open>defaultOptions\<close>, lines 67 to 72: the literal \<open>{settle: false}\<close> is allocated at \<open>a\<close>.\<close>

definition defaultOptions0 :: "nat \<Rightarrow> jsval \<Rightarrow> simple_iterator \<Rightarrow> simple_iterator" where
  "defaultOptions0 a optionsArg self =
     (let ps = extend [(''settle'', Bool False)] [options self, optionsArg];
          s = lookup ps ''settle'';
          ps' = AList.update ''settle''
                  (if typeof s = ''boolean'' then Bool (truthy s) else Bool False) ps
      in self\<lparr>options := Obj a ps'\<rparr>)"

text \<open>The constructor, lines 51 to 57.\<close>

definition AsyncSimpleIterator0 :: "nat \<Rightarrow> jsval \<Rightarrow> simple_iterator" where
  "AsyncSimpleIterator0 a optionsArg =
     defaultOptions0 a optionsArg \<lparr>options = Undefined, listeners = []\<rparr>"

text \<open>
  \<open>wrapIterator\<close>, lines 129 to 146. \<open>utils.extend(this.options, options)\<close> writes into
  \<open>this.options\<close>, which stays the same object.
\<close>

definition wrapIterator0 ::
  "jsval \<Rightarrow> jsval \<Rightarrow> simple_iterator \<Rightarrow> (error + decorated) \<times> simple_iterator" where
  "wrapIterator0 iterator optionsArg self =
     (if typeof iterator \<noteq> ''function'' then (Inl (TypeError expect_function), self)
      else case options self of
        Obj oa ops \<Rightarrow>
          (let self1 = self\<lparr>options :=
                         (if truthy optionsArg then Obj oa (extend ops [optionsArg])
                          else Obj oa ops)\<rparr>;
               self2 = (if typeof (get (options self1) ''beforeEach'') = ''function''
                        then on ''beforeEach'' (get (options self1) ''beforeEach'') self1
                        else self1);
               self3 = (if typeof (get (options self2) ''afterEach'') = ''function''
                        then on ''afterEach'' (get (options self2) ''afterEach'') self2
                        else self2);
               self4 = (if typeof (get (options self3) ''error'') = ''function''
                        then on ''error'' (get (options self3) ''error'') self3
                        else self3)
           in (Inr (Decorated iterator), self4))
      | _ \<Rightarrow> (Inl (TypeError not_an_object), self))"

section \<open>The decorated function\<close>

text \<open>
  What one call of a decorated function does, as the sequence of calls it makes: a
  listener of a hook with its arguments, the wrapped iterator with the element, the
  completion callback with error and result.
\<close>

datatype event =
    Hook string jsval "jsval list"
  | Work jsval jsval jsval
  | Done jsval jsval jsval

text \<open>
  Modelled from the spec: \<open>emit\<close> of the emitter calls the current listeners of the name
  with the arguments, in registration order, before it returns.
\<close>

definition emit :: "string \<Rightarrow> jsval list \<Rightarrow> simple_iterator \<Rightarrow> event list" where
  "emit name args self = map (\<lambda>l. Hook name l args) (listeners_of name self)"

text \<open>
  Modelled from the spec: the completion wrapper that \<open>utils.iteratorFactory\<close> hands to
  the iterator (\<open>utils.js\<close> is not among the sources). It fires \<open>afterEach\<close> with
  \<open>(err, result, value, key, completion)\<close>; if \<open>err\<close> is non-null it fires \<open>error\<close> with
  the same arguments and then calls \<open>completion(null, result)\<close> if \<open>settle\<close> is true and
  \<open>completion(err, result)\<close> if it is false; if \<open>err\<close> is null it calls
  \<open>completion(null, result)\<close>. The spec tells null from non-null and nothing more, so
  \<open>undefined\<close> counts as non-null here. \<open>settle\<close> is read from the options of the
  instance; the spec speaks of the two booleans only, and any other value is taken here
  as not true.
\<close>

definition innerCompletion ::
  "simple_iterator \<Rightarrow> jsval \<Rightarrow> jsval \<Rightarrow> jsval \<Rightarrow> jsval \<Rightarrow> jsval \<Rightarrow> event list" where
  "innerCompletion self val key completion err result =
     emit ''afterEach'' [err, result, val, key, completion] self @
     (if err \<noteq> Null
      then emit ''error'' [err, result, val, key, completion] self @
           [if get (options self) ''settle'' = Bool True
            then Done completion Null result
            else Done completion err result]
      else [Done completion Null result])"

text \<open>
  Modelled from the spec: the function that \<open>utils.iteratorFactory(self, iterator)\<close>
  returns, called with \<open>(value, key, completion)\<close>. It fires \<open>beforeEach\<close> with
  \<open>(value, key, completion)\<close>, then calls the iterator with the element and the completion
  wrapper. \<open>work\<close> is the behaviour of the iterator: the error and the result it hands to
  its completion callback for an element, which by its contract it calls exactly once.
  \<open>self\<close> is the instance at the time of the call.
\<close>

definition iteratorFactory ::
  "(jsval \<Rightarrow> jsval \<Rightarrow> jsval \<times> jsval) \<Rightarrow> simple_iterator \<Rightarrow> jsval \<Rightarrow>
     jsval \<Rightarrow> jsval \<Rightarrow> jsval \<Rightarrow> event list" where
  "iteratorFactory work self iterator val key completion =
     emit ''beforeEach'' [val, key, completion] self @
     Work iterator val key #
     innerCompletion self val key completion (fst (work val key)) (snd (work val key))"

section \<open>Notions the properties are stated with\<close>

text \<open>
  The merge of the resolver in the spec's words: the default is the base, the existing
  options override it and the incoming options override both, key by key.
\<close>

definition later_wins :: "jsval \<Rightarrow> jsval \<Rightarrow> jsval \<Rightarrow> string \<Rightarrow> jsval option" where
  "later_wins dflt existing incoming k =
     (case own incoming k of
        Some v \<Rightarrow> Some v
      | None \<Rightarrow> (case own existing k of Some v \<Rightarrow> Some v | None \<Rightarrow> own dflt k))"

text \<open>The coercion of \<open>settle\<close> in the spec's words: a boolean is kept, all else is false.\<close>

definition strict_boolean :: "jsval \<Rightarrow> jsval" where
  "strict_boolean v = (case v of Bool b \<Rightarrow> Bool b | _ \<Rightarrow> Bool False)"

text \<open>
  The listeners one \<open>wrapIterator\<close> call finds in the resolved options: for each hook
  name holding a function, the name with that function.
\<close>

definition found_hooks :: "jsval \<Rightarrow> (string \<times> jsval) list" where
  "found_hooks opts =
     map (\<lambda>name. (name, get opts name))
       (filter (\<lambda>name. typeof (get opts name) = ''function'') hooks)"

subsection \<open>Reading a trace\<close>

fun is_hook :: "string \<Rightarrow> event \<Rightarrow> bool" where
  "is_hook name (Hook n l args) = (n = name)"
| "is_hook name e = False"

fun is_work :: "event \<Rightarrow> bool" where
  "is_work (Work f v k) = True"
| "is_work e = False"

fun is_done :: "event \<Rightarrow> bool" where
  "is_done (Done c e r) = True"
| "is_done e = False"

definition hook_calls :: "string \<Rightarrow> event list \<Rightarrow> event list" where
  "hook_calls name t = filter (is_hook name) t"

text \<open>
  \<open>precedes P Q t\<close>: in the trace \<open>t\<close> no event satisfying \<open>P\<close> comes after an event
  satisfying \<open>Q\<close>, that is, all \<open>P\<close> events are over before the first \<open>Q\<close> event.
\<close>

fun precedes :: "(event \<Rightarrow> bool) \<Rightarrow> (event \<Rightarrow> bool) \<Rightarrow> event list \<Rightarrow> bool" where
  "precedes P Q [] = True"
| "precedes P Q (e # es) = ((Q e \<longrightarrow> \<not> list_ex P es) \<and> precedes P Q es)"

section \<open>Properties of a decorated call\<close>

lemma precedes_append:
  "precedes P Q (xs @ ys) =
     (precedes P Q xs \<and> precedes P Q ys \<and> (list_ex Q xs \<longrightarrow> \<not> list_ex P ys))"
  by (induction xs) auto

lemma precedes_none_P: "\<not> list_ex P t \<Longrightarrow> precedes P Q t"
  by (induction t) auto

lemma precedes_none_Q: "\<not> list_ex Q t \<Longrightarrow> precedes P Q t"
  by (induction t) auto

text \<open>\<open>precedes\<close> by positions: no \<open>P\<close> event stands after a \<open>Q\<close> event.\<close>

lemma precedes_iff:
  "precedes P Q t \<longleftrightarrow> (\<forall>i j. j < i \<and> i < length t \<and> Q (t ! j) \<longrightarrow> \<not> P (t ! i))"
proof (induction t)
  case Nil
  then show ?case by simp
next
  case (Cons e es)
  have a: "(Q e \<longrightarrow> \<not> list_ex P es) \<longleftrightarrow>
             (\<forall>i. 0 < i \<and> i < Suc (length es) \<and> Q e \<longrightarrow> \<not> P ((e # es) ! i))"
  proof
    assume h: "Q e \<longrightarrow> \<not> list_ex P es"
    show "\<forall>i. 0 < i \<and> i < Suc (length es) \<and> Q e \<longrightarrow> \<not> P ((e # es) ! i)"
    proof (intro allI impI)
      fix i assume i: "0 < i \<and> i < Suc (length es) \<and> Q e"
      then obtain i' where "i = Suc i'" "i' < length es" by (cases i) auto
      with h i show "\<not> P ((e # es) ! i)" by (auto simp: list_ex_iff)
    qed
  next
    assume h: "\<forall>i. 0 < i \<and> i < Suc (length es) \<and> Q e \<longrightarrow> \<not> P ((e # es) ! i)"
    show "Q e \<longrightarrow> \<not> list_ex P es"
    proof
      assume q: "Q e"
      have "\<not> P x" if "x \<in> set es" for x
      proof -
        from that obtain n where "n < length es" "es ! n = x" by (auto simp: in_set_conv_nth)
        moreover from h have "0 < Suc n \<and> Suc n < Suc (length es) \<and> Q e
                                \<longrightarrow> \<not> P ((e # es) ! Suc n)" by (rule spec)
        ultimately show ?thesis using q by simp
      qed
      then show "\<not> list_ex P es" by (auto simp: list_ex_iff)
    qed
  qed
  have b: "(\<forall>i j. j < i \<and> i < length es \<and> Q (es ! j) \<longrightarrow> \<not> P (es ! i)) \<longleftrightarrow>
           (\<forall>i j. 0 < j \<and> j < i \<and> i < Suc (length es) \<and> Q ((e # es) ! j)
                    \<longrightarrow> \<not> P ((e # es) ! i))"
  proof
    assume h: "\<forall>i j. j < i \<and> i < length es \<and> Q (es ! j) \<longrightarrow> \<not> P (es ! i)"
    show "\<forall>i j. 0 < j \<and> j < i \<and> i < Suc (length es) \<and> Q ((e # es) ! j)
                    \<longrightarrow> \<not> P ((e # es) ! i)"
    proof (intro allI impI)
      fix i j assume ij: "0 < j \<and> j < i \<and> i < Suc (length es) \<and> Q ((e # es) ! j)"
      then obtain i' j' where "i = Suc i'" "j = Suc j'" by (cases i; cases j) auto
      moreover from h have "j' < i' \<and> i' < length es \<and> Q (es ! j') \<longrightarrow> \<not> P (es ! i')"
        by blast
      ultimately show "\<not> P ((e # es) ! i)" using ij by simp
    qed
  next
    assume h: "\<forall>i j. 0 < j \<and> j < i \<and> i < Suc (length es) \<and> Q ((e # es) ! j)
                    \<longrightarrow> \<not> P ((e # es) ! i)"
    show "\<forall>i j. j < i \<and> i < length es \<and> Q (es ! j) \<longrightarrow> \<not> P (es ! i)"
    proof (intro allI impI)
      fix i j assume "j < i \<and> i < length es \<and> Q (es ! j)"
      moreover from h have "0 < Suc j \<and> Suc j < Suc i \<and> Suc i < Suc (length es)
          \<and> Q ((e # es) ! Suc j) \<longrightarrow> \<not> P ((e # es) ! Suc i)" by blast
      ultimately show "\<not> P (es ! i)" by simp
    qed
  qed
  have "(\<forall>i j. j < i \<and> i < length (e # es) \<and> Q ((e # es) ! j) \<longrightarrow> \<not> P ((e # es) ! i)) \<longleftrightarrow>
        (\<forall>i. 0 < i \<and> i < Suc (length es) \<and> Q e \<longrightarrow> \<not> P ((e # es) ! i)) \<and>
        (\<forall>i j. 0 < j \<and> j < i \<and> i < Suc (length es) \<and> Q ((e # es) ! j)
                    \<longrightarrow> \<not> P ((e # es) ! i))"
    (is "?L \<longleftrightarrow> ?A \<and> ?B")
  proof
    assume l: ?L
    have ?A
    proof (intro allI impI)
      fix i assume i: "0 < i \<and> i < Suc (length es) \<and> Q e"
      then obtain i' where s: "i = Suc i'" by (cases i) auto
      from l have "0 < i \<and> i < length (e # es) \<and> Q ((e # es) ! 0)
          \<longrightarrow> \<not> P ((e # es) ! i)" by blast
      with i s show "\<not> P ((e # es) ! i)" by simp
    qed
    moreover have ?B
    proof (intro allI impI)
      fix i j assume ij: "0 < j \<and> j < i \<and> i < Suc (length es) \<and> Q ((e # es) ! j)"
      then obtain i' j' where s: "i = Suc i'" "j = Suc j'" by (cases i; cases j) auto
      from l have "j < i \<and> i < length (e # es) \<and> Q ((e # es) ! j)
          \<longrightarrow> \<not> P ((e # es) ! i)" by blast
      with ij s show "\<not> P ((e # es) ! i)" by simp
    qed
    ultimately show "?A \<and> ?B" ..
  next
    assume ab: "?A \<and> ?B"
    show ?L
    proof (intro allI impI)
      fix i j assume ij: "j < i \<and> i < length (e # es) \<and> Q ((e # es) ! j)"
      show "\<not> P ((e # es) ! i)"
      proof (cases j)
        case 0
        with ij obtain i' where s: "i = Suc i'" by (cases i) auto
        from ab have "0 < i \<and> i < Suc (length es) \<and> Q e
            \<longrightarrow> \<not> P ((e # es) ! i)" by blast
        with ij 0 s show ?thesis by simp
      next
        case (Suc j')
        with ij obtain i' where s: "i = Suc i'" by (cases i) auto
        from ab have "0 < j \<and> j < i \<and> i < Suc (length es) \<and> Q ((e # es) ! j)
            \<longrightarrow> \<not> P ((e # es) ! i)" by blast
        with ij Suc s show ?thesis by simp
      qed
    qed
  qed
  with a b Cons.IH show ?case by simp
qed

lemma set_emit:
  "set (emit name args self) = (\<lambda>l. Hook name l args) ` set (listeners_of name self)"
  by (simp add: emit_def)

lemma filter_hook_emit:
  "filter (is_hook name) (emit name' args self) =
     (if name' = name then emit name' args self else [])"
  by (induction "listeners_of name' self") (auto simp: emit_def)

lemma list_ex_hook_emit:
  "list_ex (is_hook name) (emit name' args self) =
     (name' = name \<and> listeners_of name' self \<noteq> [])"
  by (cases "listeners_of name' self") (auto simp: emit_def list_ex_iff)

lemma list_ex_work_emit [simp]: "\<not> list_ex is_work (emit name args self)"
  by (auto simp: emit_def list_ex_iff)

lemma list_ex_done_emit [simp]: "\<not> list_ex is_done (emit name args self)"
  by (auto simp: emit_def list_ex_iff)

lemma filter_work_emit [simp]: "filter is_work (emit name args self) = []"
  by (simp add: emit_def)

lemma filter_done_emit [simp]: "filter is_done (emit name args self) = []"
  by (simp add: emit_def)

text \<open>The whole trace of one call, in one piece.\<close>

lemma iteratorFactory_trace:
  "iteratorFactory work self iterator val key completion =
     (let err = fst (work val key); result = snd (work val key);
          args = [err, result, val, key, completion]
      in emit ''beforeEach'' [val, key, completion] self @ [Work iterator val key] @
         emit ''afterEach'' args self @
         (if err \<noteq> Null then emit ''error'' args self else []) @
         [Done completion
            (if err \<noteq> Null \<and> get (options self) ''settle'' \<noteq> Bool True then err else Null)
            result])"
  by (simp add: iteratorFactory_def innerCompletion_def Let_def)

text \<open>
  Claim C1. With \<open>settle\<close> true, when the iterator hands a non-null error to its
  completion callback for an element, the decorated function ends by calling the outer
  completion with \<open>(null, result)\<close>; that is its only completion call, so the error does
  not reach the completion channel. Before it, every \<open>error\<close> listener has been called
  with the original error.
\<close>

theorem settle_true_suppresses_error:
  assumes "get (options self) ''settle'' = Bool True"
    and "work val key = (err, result)" and "err \<noteq> Null"
  shows "\<exists>pre. iteratorFactory work self iterator val key completion =
                 pre @ [Done completion Null result]
           \<and> \<not> list_ex is_done pre
           \<and> hook_calls ''error'' pre =
               map (\<lambda>l. Hook ''error'' l [err, result, val, key, completion])
                 (listeners_of ''error'' self)"
  using assms
  by (simp add: iteratorFactory_trace Let_def hook_calls_def filter_hook_emit)
     (simp add: emit_def)

theorem settle_true_suppresses_error_witness:
  "get (options \<lparr>options = Obj 0 [(''settle'', Bool True)],
                   listeners = [(''afterEach'', Fun 2), (''error'', Fun 3)]\<rparr>) ''settle''
     = Bool True
   \<and> (\<lambda>v k. (Str ''failed'', Undefined)) (Str ''./dev.json'') (Str ''dev'')
       = (Str ''failed'', Undefined)
   \<and> Str ''failed'' \<noteq> Null
   \<and> (\<exists>pre. iteratorFactory (\<lambda>v k. (Str ''failed'', Undefined))
               \<lparr>options = Obj 0 [(''settle'', Bool True)],
                  listeners = [(''afterEach'', Fun 2), (''error'', Fun 3)]\<rparr>
               (Fun 0) (Str ''./dev.json'') (Str ''dev'') (Fun 9)
             = pre @ [Done (Fun 9) Null Undefined]
           \<and> \<not> list_ex is_done pre
           \<and> hook_calls ''error'' pre =
               [Hook ''error'' (Fun 3)
                  [Str ''failed'', Undefined, Str ''./dev.json'', Str ''dev'', Fun 9]])"
proof -
  let ?self = "\<lparr>options = Obj 0 [(''settle'', Bool True)],
                 listeners = [(''afterEach'', Fun 2), (''error'', Fun 3)]\<rparr>"
  let ?work = "\<lambda>v k :: jsval. (Str ''failed'', Undefined)"
  have h1: "get (options ?self) ''settle'' = Bool True" by (simp add: get_def)
  have h2: "?work (Str ''./dev.json'') (Str ''dev'') = (Str ''failed'', Undefined)" by simp
  have h3: "Str ''failed'' \<noteq> Null" by simp
  have l: "listeners_of ''error'' ?self = [Fun 3]" by (simp add: listeners_of_def)
  show ?thesis
    using h1 h2 h3
      settle_true_suppresses_error [where self = ?self and work = ?work
        and val = "Str ''./dev.json''" and key = "Str ''dev''" and err = "Str ''failed''"
        and result = Undefined and iterator = "Fun 0" and completion = "Fun 9"]
    by (simp add: l)
qed

text \<open>
  Claim C2. With \<open>settle\<close> false, when the iterator hands a non-null error to its
  completion callback for an element, the decorated function ends by calling the outer
  completion with that very error value as first argument, and that is its only
  completion call.
\<close>

theorem settle_false_propagates_error:
  assumes "get (options self) ''settle'' = Bool False"
    and "work val key = (err, result)" and "err \<noteq> Null"
  shows "\<exists>pre. iteratorFactory work self iterator val key completion =
                 pre @ [Done completion err result]
           \<and> \<not> list_ex is_done pre"
  using assms by (simp add: iteratorFactory_trace Let_def)

theorem settle_false_propagates_error_witness:
  "get (options \<lparr>options = Obj 0 [(''settle'', Bool False)],
                   listeners = [(''error'', Fun 3)]\<rparr>) ''settle'' = Bool False
   \<and> (\<lambda>v k. (Obj 7 [(''value'', v)], Undefined)) (Str ''./dev.json'') (Str ''dev'')
       = (Obj 7 [(''value'', Str ''./dev.json'')], Undefined)
   \<and> Obj 7 [(''value'', Str ''./dev.json'')] \<noteq> Null
   \<and> (\<exists>pre. iteratorFactory (\<lambda>v k. (Obj 7 [(''value'', v)], Undefined))
               \<lparr>options = Obj 0 [(''settle'', Bool False)], listeners = [(''error'', Fun 3)]\<rparr>
               (Fun 0) (Str ''./dev.json'') (Str ''dev'') (Fun 9)
             = pre @ [Done (Fun 9) (Obj 7 [(''value'', Str ''./dev.json'')]) Undefined]
           \<and> \<not> list_ex is_done pre)"
proof -
  let ?self = "\<lparr>options = Obj 0 [(''settle'', Bool False)], listeners = [(''error'', Fun 3)]\<rparr>"
  let ?work = "\<lambda>v k :: jsval. (Obj 7 [(''value'', v)], Undefined)"
  have h1: "get (options ?self) ''settle'' = Bool False" by (simp add: get_def)
  have h2: "?work (Str ''./dev.json'') (Str ''dev'')
              = (Obj 7 [(''value'', Str ''./dev.json'')], Undefined)" by simp
  have h3: "Obj 7 [(''value'', Str ''./dev.json'')] \<noteq> Null" by simp
  show ?thesis
    using h1 h2 h3
      settle_false_propagates_error [where self = ?self and work = ?work
        and val = "Str ''./dev.json''" and key = "Str ''dev''"
        and err = "Obj 7 [(''value'', Str ''./dev.json'')]"
        and result = Undefined and iterator = "Fun 0" and completion = "Fun 9"]
    by simp
qed

text \<open>
  Claim C4. In every call of a decorated function all \<open>beforeEach\<close> listeners are called
  before the iterator; all \<open>afterEach\<close> listeners are called before any \<open>error\<close>
  listener; the \<open>error\<close> listeners, which run when the error is non-null, are called
  before the outer completion; and the call of the outer completion is the last event of
  the trace and the only one of its kind.
\<close>

theorem decorated_call_order:
  "(let t = iteratorFactory work self iterator val key completion;
        err = fst (work val key); result = snd (work val key)
    in hook_calls ''beforeEach'' t = emit ''beforeEach'' [val, key, completion] self
     \<and> hook_calls ''afterEach'' t =
         emit ''afterEach'' [err, result, val, key, completion] self
     \<and> hook_calls ''error'' t =
         (if err \<noteq> Null then emit ''error'' [err, result, val, key, completion] self
          else [])
     \<and> filter is_work t = [Work iterator val key]
     \<and> precedes (is_hook ''beforeEach'') is_work t
     \<and> precedes is_work (is_hook ''afterEach'') t
     \<and> precedes (is_hook ''afterEach'') (is_hook ''error'') t
     \<and> precedes (is_hook ''error'') is_done t
     \<and> (\<exists>pre d. t = pre @ [d] \<and> is_done d \<and> \<not> list_ex is_done pre))"
  by (simp add: iteratorFactory_trace Let_def hook_calls_def filter_hook_emit
      precedes_append list_ex_hook_emit precedes_none_P precedes_none_Q)

theorem decorated_call_order_witness:
  "(let t = iteratorFactory (\<lambda>v k. (Str ''failed'', Undefined))
              \<lparr>options = Obj 0 [(''settle'', Bool False)],
                 listeners = [(''beforeEach'', Fun 1), (''afterEach'', Fun 2), (''error'', Fun 3)]\<rparr>
              (Fun 0) (Str ''./dev.json'') (Str ''dev'') (Fun 9)
    in t = [Hook ''beforeEach'' (Fun 1) [Str ''./dev.json'', Str ''dev'', Fun 9],
            Work (Fun 0) (Str ''./dev.json'') (Str ''dev''),
            Hook ''afterEach'' (Fun 2)
              [Str ''failed'', Undefined, Str ''./dev.json'', Str ''dev'', Fun 9],
            Hook ''error'' (Fun 3)
              [Str ''failed'', Undefined, Str ''./dev.json'', Str ''dev'', Fun 9],
            Done (Fun 9) (Str ''failed'') Undefined]
     \<and> precedes (is_hook ''beforeEach'') is_work t
     \<and> precedes (is_hook ''afterEach'') (is_hook ''error'') t
     \<and> precedes (is_hook ''error'') is_done t
     \<and> is_done (last t))"
proof -
  let ?self = "\<lparr>options = Obj 0 [(''settle'', Bool False)],
      listeners = [(''beforeEach'', Fun 1), (''afterEach'', Fun 2), (''error'', Fun 3)]\<rparr>"
  let ?work = "\<lambda>v k :: jsval. (Str ''failed'', Undefined)"
  let ?t = "iteratorFactory ?work ?self (Fun 0) (Str ''./dev.json'') (Str ''dev'') (Fun 9)"
  have t: "?t = [Hook ''beforeEach'' (Fun 1) [Str ''./dev.json'', Str ''dev'', Fun 9],
            Work (Fun 0) (Str ''./dev.json'') (Str ''dev''),
            Hook ''afterEach'' (Fun 2)
              [Str ''failed'', Undefined, Str ''./dev.json'', Str ''dev'', Fun 9],
            Hook ''error'' (Fun 3)
              [Str ''failed'', Undefined, Str ''./dev.json'', Str ''dev'', Fun 9],
            Done (Fun 9) (Str ''failed'') Undefined]"
    by (simp add: iteratorFactory_def innerCompletion_def emit_def listeners_of_def get_def)
  have "precedes (is_hook ''beforeEach'') is_work ?t
     \<and> precedes (is_hook ''afterEach'') (is_hook ''error'') ?t
     \<and> precedes (is_hook ''error'') is_done ?t"
    using decorated_call_order [of ?work ?self "Fun 0" "Str ''./dev.json''" "Str ''dev''" "Fun 9"]
    unfolding Let_def by blast
  with t show ?thesis unfolding Let_def by simp
qed

text \<open>
  Claim C8. Every non-null error that the iterator hands to its completion callback is
  passed to each \<open>afterEach\<close> listener and to each \<open>error\<close> listener before the outer
  completion is called, whatever \<open>settle\<close> holds.
\<close>

theorem work_error_reaches_hooks:
  assumes "work val key = (err, result)" and "err \<noteq> Null"
  shows "\<exists>pre d. iteratorFactory work self iterator val key completion = pre @ [d]
           \<and> is_done d \<and> \<not> list_ex is_done pre
           \<and> (\<forall>l \<in> set (listeners_of ''afterEach'' self).
                 Hook ''afterEach'' l [err, result, val, key, completion] \<in> set pre)
           \<and> (\<forall>l \<in> set (listeners_of ''error'' self).
                 Hook ''error'' l [err, result, val, key, completion] \<in> set pre)"
  using assms by (simp add: iteratorFactory_trace Let_def set_emit)

theorem work_error_reaches_hooks_witness:
  "(\<lambda>v k. (Str ''failed'', Undefined)) (Str ''./dev.json'') (Str ''dev'')
       = (Str ''failed'', Undefined)
   \<and> Str ''failed'' \<noteq> Null
   \<and> (\<exists>pre d. iteratorFactory (\<lambda>v k. (Str ''failed'', Undefined))
               \<lparr>options = Obj 0 [(''settle'', Bool True)],
                  listeners = [(''afterEach'', Fun 2), (''error'', Fun 3)]\<rparr>
               (Fun 0) (Str ''./dev.json'') (Str ''dev'') (Fun 9) = pre @ [d]
           \<and> is_done d \<and> \<not> list_ex is_done pre
           \<and> Hook ''afterEach'' (Fun 2)
                [Str ''failed'', Undefined, Str ''./dev.json'', Str ''dev'', Fun 9] \<in> set pre
           \<and> Hook ''error'' (Fun 3)
                [Str ''failed'', Undefined, Str ''./dev.json'', Str ''dev'', Fun 9] \<in> set pre)"
proof -
  let ?self = "\<lparr>options = Obj 0 [(''settle'', Bool True)],
                 listeners = [(''afterEach'', Fun 2), (''error'', Fun 3)]\<rparr>"
  let ?work = "\<lambda>v k :: jsval. (Str ''failed'', Undefined)"
  have h1: "?work (Str ''./dev.json'') (Str ''dev'') = (Str ''failed'', Undefined)" by simp
  have h2: "Str ''failed'' \<noteq> Null" by simp
  have l: "listeners_of ''afterEach'' ?self = [Fun 2]" "listeners_of ''error'' ?self = [Fun 3]"
    by (simp_all add: listeners_of_def)
  show ?thesis
    using h1 h2
      work_error_reaches_hooks [where self = ?self and work = ?work
        and val = "Str ''./dev.json''" and key = "Str ''dev''" and err = "Str ''failed''"
        and result = Undefined and iterator = "Fun 0" and completion = "Fun 9"]
    by (simp add: l)
qed

section \<open>Properties of the resolver\<close>

text \<open>What \<open>utils.extend\<close> leaves under each key.\<close>

lemma map_of_fold_update:
  "map_of (fold (\<lambda>key. AList.update key (f key)) ks t) k =
     (if k \<in> set ks then Some (f k) else map_of t k)"
  by (induction ks arbitrary: t) (auto simp: update_conv')

lemma map_of_assign: "map_of (assign t s) = map_of t ++ map_of s"
proof
  fix k
  show "map_of (assign t s) k = (map_of t ++ map_of s) k"
  proof (cases "map_of s k")
    case None
    then have "k \<notin> set (map fst s)" by (simp add: map_of_eq_None_iff)
    with None show ?thesis by (simp add: assign_def map_of_fold_update map_add_def)
  next
    case (Some v)
    then have "k \<in> set (map fst s)" by (auto dest: map_of_SomeD intro: rev_image_eqI)
    with Some show ?thesis
      by (simp add: assign_def map_of_fold_update map_add_def lookup_def)
  qed
qed

lemma map_of_extend2:
  "map_of (extend t [e, i]) k =
     (case own i k of Some v \<Rightarrow> Some v
      | None \<Rightarrow> (case own e k of Some v \<Rightarrow> Some v | None \<Rightarrow> map_of t k))"
  by (cases e; cases i) (auto simp: extend_def map_of_assign map_add_def split: option.splits)

lemma map_of_extend1:
  "map_of (extend t [i]) k = (case own i k of Some v \<Rightarrow> Some v | None \<Rightarrow> map_of t k)"
  by (cases i) (auto simp: extend_def map_of_assign map_add_def split: option.splits)

lemma strict_boolean_code:
  "(if typeof s = ''boolean'' then Bool (truthy s) else Bool False) = strict_boolean s"
  by (cases s) (simp_all add: strict_boolean_def)

text \<open>After \<open>defaultOptions\<close>, and so after construction, \<open>settle\<close> is a boolean.\<close>

lemma defaultOptions_settle_boolean:
  "typeof (get (options (defaultOptions a optionsArg self)) ''settle'') = ''boolean''
   \<and> typeof (get (options (defaultOptions0 a optionsArg self)) ''settle'') = ''boolean''"
  by (simp add: defaultOptions_def defaultOptions0_def Let_def get_def update_conv')

text \<open>
  Claim C6, as the code has it. \<open>defaultOptions\<close> merges key by key with later sources
  winning: the built-in default is the base, the existing options of the instance
  override it and the incoming options override both. The built-in default is
  \<open>{settle: false}\<close> in \<open>src/unnamed/part_000\<close> and \<open>{emitter: new utils.Emitter(),
  settle: false}\<close> in \<open>src/index.js\<close>. A value is taken over whole from the source that
  wins, never merged with the value it replaces. Under \<open>settle\<close> the merged value is
  then coerced to a strict boolean.
\<close>

theorem defaultOptions_later_wins:
  "own (options (defaultOptions a incoming self)) k =
     (let merged = later_wins (Obj a [(''emitter'', Obj (Suc a) []), (''settle'', Bool False)])
                     (options self) incoming k
      in if k = ''settle'' then map_option strict_boolean merged else merged)
   \<and> own (options (defaultOptions0 a incoming self)) k =
     (let merged = later_wins (Obj a [(''settle'', Bool False)]) (options self) incoming k
      in if k = ''settle'' then map_option strict_boolean merged else merged)"
  by (auto simp: defaultOptions_def defaultOptions0_def Let_def update_conv' later_wins_def
      map_of_extend2 strict_boolean_code lookup_def split: option.splits)

text \<open>
  Claim C6 as stated, with \<open>{settle: false}\<close> as the base of \<open>src/index.js\<close> and nothing
  after the merge, fails: resolving without any options in \<open>src/index.js\<close> yields an
  \<open>emitter\<close> that none of the three sources of the claim holds, and an incoming
  \<open>settle\<close> of \<open>'yes'\<close> does not reach the resolved options.
\<close>

theorem defaultOptions_base_counterexample:
  "own (options (defaultOptions 0 Undefined \<lparr>options = Undefined, listeners = []\<rparr>)) ''emitter''
     = Some (Obj 1 [])
   \<and> later_wins (Obj 0 [(''settle'', Bool False)]) Undefined Undefined ''emitter'' = None
   \<and> own (options (defaultOptions 0 (Obj 5 [(''settle'', Str ''yes'')])
            \<lparr>options = Undefined, listeners = []\<rparr>)) ''settle'' = Some (Bool False)
   \<and> later_wins (Obj 0 [(''settle'', Bool False)]) Undefined
         (Obj 5 [(''settle'', Str ''yes'')]) ''settle'' = Some (Str ''yes'')"
  by code_simp

text \<open>Deep equality is reflexive and kept by the steps of the resolver.\<close>

lemma deep_equal_props_same:
  "(\<And>k v. (k, v) \<in> set ps \<Longrightarrow> deep_equal v v) \<Longrightarrow> deep_equal_props ps ps"
proof (induction ps)
  case Nil
  then show ?case by simp
next
  case (Cons p ps)
  obtain k v where p: "p = (k, v)" by (cases p)
  have "deep_equal v v" using Cons.prems [of k v] p by simp
  moreover have "deep_equal w w" if "(j, w) \<in> set ps" for j w
    using Cons.prems [of j w] that by simp
  then have "deep_equal_props ps ps" by (rule Cons.IH)
  ultimately show ?case using p by simp
qed

lemma deep_equal_refl: "deep_equal v v"
proof (induction v)
  case (Obj a ps)
  have "deep_equal v v" if "(k, v) \<in> set ps" for k v
    using Obj [OF that] by simp
  then show ?case by (simp add: deep_equal_props_same)
qed simp_all

lemma deep_equal_props_refl: "deep_equal_props ps ps"
  by (simp add: deep_equal_props_same deep_equal_refl)

lemma deep_equal_props_update:
  "deep_equal_props t t' \<Longrightarrow> deep_equal v v' \<Longrightarrow>
     deep_equal_props (AList.update k v t) (AList.update k v' t')"
proof (induction t arbitrary: t')
  case Nil
  then show ?case by (cases t') simp_all
next
  case (Cons p t)
  then show ?case by (cases t'; cases p) auto
qed

lemma deep_equal_props_lookup:
  "deep_equal_props t t' \<Longrightarrow> deep_equal (lookup t k) (lookup t' k)"
proof (induction t arbitrary: t')
  case Nil
  then show ?case by (cases t') (simp_all add: lookup_def)
next
  case (Cons p t)
  then show ?case by (cases t'; cases p) (auto simp: lookup_def)
qed

lemma deep_equal_props_fold:
  "deep_equal_props t t' \<Longrightarrow>
     deep_equal_props (fold (\<lambda>key. AList.update key (f key)) ks t)
       (fold (\<lambda>key. AList.update key (f key)) ks t')"
  by (induction ks arbitrary: t t') (simp_all add: deep_equal_props_update deep_equal_refl)

lemma deep_equal_props_extend:
  "deep_equal_props t t' \<Longrightarrow> deep_equal_props (extend t srcs) (extend t' srcs)"
  unfolding extend_def
  by (induction srcs arbitrary: t t')
     (auto simp: assign_def deep_equal_props_fold split: jsval.splits)

lemma deep_equal_strict_boolean:
  "deep_equal v v' \<Longrightarrow> strict_boolean v = strict_boolean v'"
  by (cases v; cases v') (simp_all add: strict_boolean_def)

lemma deep_equal_coerced:
  assumes "deep_equal_props ps qs"
  shows "deep_equal_props (AList.update ''settle'' (strict_boolean (lookup ps ''settle'')) ps)
           (AList.update ''settle'' (strict_boolean (lookup qs ''settle'')) qs)"
proof -
  have "strict_boolean (lookup ps ''settle'') = strict_boolean (lookup qs ''settle'')"
    using assms by (intro deep_equal_strict_boolean deep_equal_props_lookup)
  then show ?thesis
    using assms by (simp add: deep_equal_props_update deep_equal_refl)
qed

text \<open>
  Resolving once more from the resolved options, with the same incoming options, leaves
  every property as it is: the keys keep their order and each key its value.
\<close>

lemma alist_eqI:
  "distinct (map fst xs) \<Longrightarrow> map fst xs = map fst ys \<Longrightarrow> map_of xs = map_of ys \<Longrightarrow> xs = ys"
proof (induction xs arbitrary: ys)
  case Nil
  then show ?case by simp
next
  case (Cons x xs)
  then obtain y ys' where ys: "ys = y # ys'" by (cases ys) auto
  obtain k v where x: "x = (k, v)" by (cases x)
  obtain k' v' where y: "y = (k', v')" by (cases y)
  from Cons.prems(2) ys x y have k: "k' = k" and keys: "map fst xs = map fst ys'" by simp_all
  from Cons.prems(3) have "map_of (x # xs) k = map_of ys k" by (rule fun_cong)
  with ys x y k have v: "v' = v" by simp
  from Cons.prems(1) x have nk: "k \<notin> fst ` set xs" and d: "distinct (map fst xs)" by simp_all
  from nk keys have nk': "k \<notin> fst ` set ys'" by (metis set_map)
  have "map_of xs j = map_of ys' j" for j
  proof (cases "j = k")
    case True
    from nk have "map_of xs k = None" by (simp add: map_of_eq_None_iff)
    moreover from nk' have "map_of ys' k = None" by (simp add: map_of_eq_None_iff)
    ultimately show ?thesis using True by simp
  next
    case False
    from Cons.prems(3) have "map_of (x # xs) j = map_of ys j" by (rule fun_cong)
    with False ys x y k show ?thesis by simp
  qed
  then have "map_of xs = map_of ys'" by (simp add: fun_eq_iff)
  with Cons.IH [OF d keys] have "xs = ys'" by simp
  with ys x y k v show ?case by simp
qed

lemma keys_fold_known:
  "set ks \<subseteq> fst ` set t \<Longrightarrow>
     map fst (fold (\<lambda>k. AList.update k (f k)) ks t) = map fst t"
proof (induction ks arbitrary: t)
  case Nil
  then show ?case by simp
next
  case (Cons k ks)
  from Cons.prems have k: "k \<in> set (map fst t)" by simp
  then have 1: "map fst (AList.update k (f k) t) = map fst t" by (simp add: update_keys)
  then have "fst ` set (AList.update k (f k) t) = fst ` set t" by (metis set_map)
  with Cons.prems have "set ks \<subseteq> fst ` set (AList.update k (f k) t)" by simp
  from Cons.IH [OF this] 1 show ?case by simp
qed

lemma keys_fold_new:
  "distinct ks \<Longrightarrow> set ks \<inter> fst ` set t = {} \<Longrightarrow>
     map fst (fold (\<lambda>k. AList.update k (f k)) ks t) = map fst t @ ks"
proof (induction ks arbitrary: t)
  case Nil
  then show ?case by simp
next
  case (Cons k ks)
  from Cons.prems have k: "k \<notin> set (map fst t)" by auto
  then have 1: "map fst (AList.update k (f k) t) = map fst t @ [k]" by (simp add: update_keys)
  then have "fst ` set (AList.update k (f k) t) = insert k (fst ` set t)"
    by (metis dom_update insert_is_Un)
  with Cons.prems have "set ks \<inter> fst ` set (AList.update k (f k) t) = {}" by auto
  moreover from Cons.prems have "distinct ks" by simp
  ultimately show ?case using Cons.IH [of "AList.update k (f k) t"] 1 by simp
qed

lemma keys_fold_prefix:
  "\<exists>B. map fst (fold (\<lambda>k. AList.update k (f k)) ks t) = map fst t @ B"
proof (induction ks arbitrary: t)
  case Nil
  then show ?case by simp
next
  case (Cons k ks)
  obtain B where "map fst (fold (\<lambda>k. AList.update k (f k)) ks (AList.update k (f k) t))
                    = map fst (AList.update k (f k) t) @ B"
    using Cons.IH by blast
  then show ?case by (auto simp: update_keys)
qed

lemma distinct_fold_update:
  "distinct (map fst t) \<Longrightarrow> distinct (map fst (fold (\<lambda>k. AList.update k (f k)) ks t))"
  by (induction ks arbitrary: t) (simp_all add: distinct_update)

lemma keys_assign_prefix: "\<exists>B. map fst (assign t s) = map fst t @ B"
  unfolding assign_def by (rule keys_fold_prefix)

lemma distinct_assign: "distinct (map fst t) \<Longrightarrow> distinct (map fst (assign t s))"
  unfolding assign_def by (rule distinct_fold_update)

lemma keys_assign_known:
  "fst ` set s \<subseteq> fst ` set t \<Longrightarrow> map fst (assign t s) = map fst t"
  unfolding assign_def by (rule keys_fold_known) simp

lemma keys_assign_self:
  assumes "distinct (map fst r)" and "map fst r = map fst t @ B"
  shows "map fst (assign t r) = map fst r"
proof -
  let ?f = "\<lambda>k. AList.update k (lookup r k)"
  let ?t' = "fold ?f (map fst t) t"
  have 1: "map fst ?t' = map fst t" by (rule keys_fold_known) simp
  from assms have "distinct B" and "set B \<inter> set (map fst t) = {}" by auto
  with 1 have "set B \<inter> fst ` set ?t' = {}" by (metis set_map)
  with \<open>distinct B\<close> have "map fst (fold ?f B ?t') = map fst ?t' @ B" by (rule keys_fold_new)
  with 1 assms(2) show ?thesis by (simp add: assign_def)
qed

lemma extend2: "extend t [e, i] = extend (extend t [e]) [i]"
  by (simp add: extend_def)

lemma keys_extend1_prefix: "\<exists>B. map fst (extend t [s]) = map fst t @ B"
  by (cases s) (simp_all add: extend_def keys_assign_prefix)

lemma distinct_extend1: "distinct (map fst t) \<Longrightarrow> distinct (map fst (extend t [s]))"
  by (cases s) (simp_all add: extend_def distinct_assign)

lemma keys_extend1_known:
  assumes "\<And>k v. own s k = Some v \<Longrightarrow> k \<in> fst ` set t"
  shows "map fst (extend t [s]) = map fst t"
proof (cases s)
  case (Obj a ps)
  have "fst ` set ps \<subseteq> fst ` set t"
  proof
    fix k assume "k \<in> fst ` set ps"
    then obtain v where "map_of ps k = Some v"
      by (metis map_of_eq_None_iff not_None_eq)
    with Obj show "k \<in> fst ` set t" using assms [of k v] by simp
  qed
  with Obj show ?thesis by (simp add: extend_def keys_assign_known)
qed (simp_all add: extend_def)

lemma strict_boolean_idem: "strict_boolean (strict_boolean v) = strict_boolean v"
  by (cases v) (simp_all add: strict_boolean_def)

lemma keys_of_Some: "map_of xs k = Some v \<Longrightarrow> k \<in> set (map fst xs)"
  by (metis map_of_eq_None_iff option.distinct(1) set_map)

lemma resolve_again:
  fixes D D' :: props and e i :: jsval and a :: nat
  assumes keys: "map fst D' = map fst D" and dist: "distinct (map fst D)"
    and settle: "''settle'' \<in> set (map fst D)"
  defines "P1 \<equiv> extend D [e, i]"
  defines "R1 \<equiv> AList.update ''settle'' (strict_boolean (lookup P1 ''settle'')) P1"
  defines "P2 \<equiv> extend D' [Obj a R1, i]"
  shows "AList.update ''settle'' (strict_boolean (lookup P2 ''settle'')) P2 = R1"
proof -
  let ?R2 = "AList.update ''settle'' (strict_boolean (lookup P2 ''settle'')) P2"
  have dP1: "distinct (map fst P1)"
    unfolding P1_def extend2 by (intro distinct_extend1 dist)
  obtain B1 where "map fst (extend D [e]) = map fst D @ B1"
    using keys_extend1_prefix by blast
  moreover obtain B2 where "map fst P1 = map fst (extend D [e]) @ B2"
    unfolding P1_def extend2 using keys_extend1_prefix by blast
  ultimately have kP1: "map fst P1 = map fst D @ (B1 @ B2)" by simp
  with settle have sP1: "''settle'' \<in> set (map fst P1)" by simp
  then have kR1: "map fst R1 = map fst P1" by (simp add: R1_def update_keys)
  with dP1 have dR1: "distinct (map fst R1)" by simp
  have mR1: "map_of R1 k =
      (if k = ''settle'' then Some (strict_boolean (lookup P1 ''settle'')) else map_of P1 k)" for k
    by (simp add: R1_def update_conv')
  have mP1: "map_of P1 k =
      (case own i k of Some v \<Rightarrow> Some v
       | None \<Rightarrow> (case own e k of Some v \<Rightarrow> Some v | None \<Rightarrow> map_of D k))" for k
    unfolding P1_def by (rule map_of_extend2)
  have kA: "map fst (assign D' R1) = map fst R1"
    by (rule keys_assign_self [OF dR1, of D' "B1 @ B2"]) (simp add: kR1 kP1 keys)
  have P2: "P2 = extend (assign D' R1) [i]"
    by (simp add: P2_def extend_def)
  have "k \<in> fst ` set (assign D' R1)" if "own i k = Some v" for k v
  proof -
    from that have "map_of P1 k = Some v" by (simp add: mP1)
    then have "k \<in> set (map fst P1)" by (rule keys_of_Some)
    with kA kR1 show ?thesis by (metis set_map)
  qed
  then have "map fst (extend (assign D' R1) [i]) = map fst (assign D' R1)"
    by (rule keys_extend1_known)
  with P2 kA have kP2: "map fst P2 = map fst R1" by simp
  with kR1 sP1 have "''settle'' \<in> set (map fst P2)" by simp
  then have "map fst ?R2 = map fst P2" by (simp add: update_keys)
  with kP2 have kR2: "map fst R1 = map fst ?R2" by simp
  have mP2: "map_of P2 k =
      (case own i k of Some v \<Rightarrow> Some v | None \<Rightarrow> (map_of D' ++ map_of R1) k)" for k
    unfolding P2 by (simp add: map_of_extend1 map_of_assign split: option.splits)
  have none: "map_of D' k = None" if "map_of R1 k = None" for k
  proof -
    from that have "k \<notin> set (map fst R1)" by (simp add: map_of_eq_None_iff)
    with kR1 kP1 keys have "k \<notin> set (map fst D')" by simp
    then show ?thesis by (simp add: map_of_eq_None_iff)
  qed
  have l1: "lookup P1 ''settle'' =
      (case own i ''settle'' of Some v \<Rightarrow> v
       | None \<Rightarrow> lookup (extend D [e]) ''settle'')"
    unfolding P1_def extend2 by (simp add: lookup_def map_of_extend1 split: option.splits)
  have l2: "lookup P2 ''settle'' =
      (case own i ''settle'' of Some v \<Rightarrow> v
       | None \<Rightarrow> strict_boolean (lookup P1 ''settle''))"
    by (simp add: lookup_def mP2 mR1 map_add_def split: option.splits)
  have s: "strict_boolean (lookup P2 ''settle'') = strict_boolean (lookup P1 ''settle'')"
    by (simp add: l1 l2 strict_boolean_idem split: option.splits)
  have "map_of R1 k = map_of ?R2 k" for k
  proof (cases "k = ''settle''")
    case True
    then show ?thesis by (simp add: mR1 update_conv' s)
  next
    case False
    show ?thesis
    proof (cases "own i k")
      case None
      with False none [of k] show ?thesis
        by (simp add: update_conv' mP2 map_add_def split: option.splits)
    next
      case (Some v)
      with False show ?thesis by (simp add: update_conv' mP2 mR1 mP1)
    qed
  qed
  then have "map_of R1 = map_of ?R2" by (simp add: fun_eq_iff)
  with dR1 kR2 have "R1 = ?R2" by (rule alist_eqI)
  then show ?thesis by simp
qed

lemma defaultOptions_again:
  "options (defaultOptions b incoming (defaultOptions a incoming self)) =
     (case options (defaultOptions a incoming self) of Obj x ps \<Rightarrow> Obj b ps | v \<Rightarrow> v)"
proof -
  let ?D = "\<lambda>n. [(''emitter'', Obj (Suc n) []), (''settle'', Bool False)]"
  have "AList.update ''settle''
          (strict_boolean (lookup (extend (?D b)
             [Obj a (AList.update ''settle''
                (strict_boolean (lookup (extend (?D a) [options self, incoming]) ''settle''))
                (extend (?D a) [options self, incoming])), incoming]) ''settle''))
          (extend (?D b)
             [Obj a (AList.update ''settle''
                (strict_boolean (lookup (extend (?D a) [options self, incoming]) ''settle''))
                (extend (?D a) [options self, incoming])), incoming])
        = AList.update ''settle''
            (strict_boolean (lookup (extend (?D a) [options self, incoming]) ''settle''))
            (extend (?D a) [options self, incoming])"
    by (rule resolve_again) simp_all
  then show ?thesis
    unfolding defaultOptions_def Let_def strict_boolean_code by simp
qed

lemma defaultOptions0_again:
  "options (defaultOptions0 b incoming (defaultOptions0 a incoming self)) =
     (case options (defaultOptions0 a incoming self) of Obj x ps \<Rightarrow> Obj b ps | v \<Rightarrow> v)"
proof -
  let ?D = "[(''settle'', Bool False)]"
  have "AList.update ''settle''
          (strict_boolean (lookup (extend ?D
             [Obj a (AList.update ''settle''
                (strict_boolean (lookup (extend ?D [options self, incoming]) ''settle''))
                (extend ?D [options self, incoming])), incoming]) ''settle''))
          (extend ?D
             [Obj a (AList.update ''settle''
                (strict_boolean (lookup (extend ?D [options self, incoming]) ''settle''))
                (extend ?D [options self, incoming])), incoming])
        = AList.update ''settle''
            (strict_boolean (lookup (extend ?D [options self, incoming]) ''settle''))
            (extend ?D [options self, incoming])"
    by (rule resolve_again) simp_all
  then show ?thesis
    unfolding defaultOptions0_def Let_def strict_boolean_code by simp
qed

lemma deep_equal_readdressed:
  "deep_equal (case v of Obj x ps \<Rightarrow> Obj b ps | w \<Rightarrow> w) v"
  by (cases v) (simp_all add: deep_equal_props_refl)

text \<open>
  Claim C9. Two calls of the resolver with the same existing options and the same
  incoming options yield deep-equal options, wherever the objects they create are
  allocated. The resolver is also idempotent: called a second time on the instance with
  the same incoming options, it yields options deep-equal to those of the first call.
\<close>

theorem defaultOptions_deep_equal:
  "deep_equal (options (defaultOptions a incoming self))
              (options (defaultOptions b incoming self))
   \<and> deep_equal (options (defaultOptions0 a incoming self))
                (options (defaultOptions0 b incoming self))
   \<and> deep_equal (options (defaultOptions b incoming (defaultOptions a incoming self)))
                (options (defaultOptions a incoming self))
   \<and> deep_equal (options (defaultOptions0 b incoming (defaultOptions0 a incoming self)))
                (options (defaultOptions0 a incoming self))"
proof -
  let ?srcs = "[options self, incoming]"
  have "deep_equal_props
          (extend [(''emitter'', Obj (Suc a) []), (''settle'', Bool False)] ?srcs)
          (extend [(''emitter'', Obj (Suc b) []), (''settle'', Bool False)] ?srcs)"
    by (rule deep_equal_props_extend) simp
  then have 1: "deep_equal (options (defaultOptions a incoming self))
                  (options (defaultOptions b incoming self))"
    unfolding defaultOptions_def Let_def strict_boolean_code
    by (simp add: deep_equal_coerced)
  have 2: "deep_equal (options (defaultOptions0 a incoming self))
             (options (defaultOptions0 b incoming self))"
    unfolding defaultOptions0_def Let_def strict_boolean_code
    by (simp add: deep_equal_coerced deep_equal_props_refl)
  have 3: "deep_equal (options (defaultOptions b incoming (defaultOptions a incoming self)))
             (options (defaultOptions a incoming self))"
    unfolding defaultOptions_again by (rule deep_equal_readdressed)
  have 4: "deep_equal (options (defaultOptions0 b incoming (defaultOptions0 a incoming self)))
             (options (defaultOptions0 a incoming self))"
    unfolding defaultOptions0_again by (rule deep_equal_readdressed)
  from 1 2 3 4 show ?thesis by simp
qed

text \<open>The two results are nevertheless different objects.\<close>

theorem defaultOptions_deep_equal_witness:
  "deep_equal (options (defaultOptions 0 (Obj 5 [(''settle'', Bool True)])
                 \<lparr>options = Undefined, listeners = []\<rparr>))
              (options (defaultOptions 20 (Obj 5 [(''settle'', Bool True)])
                 \<lparr>options = Undefined, listeners = []\<rparr>))
   \<and> options (defaultOptions 0 (Obj 5 [(''settle'', Bool True)])
                 \<lparr>options = Undefined, listeners = []\<rparr>)
       \<noteq> options (defaultOptions 20 (Obj 5 [(''settle'', Bool True)])
                 \<lparr>options = Undefined, listeners = []\<rparr>)"
proof -
  have "options (defaultOptions 0 (Obj 5 [(''settle'', Bool True)])
                 \<lparr>options = Undefined, listeners = []\<rparr>)
       \<noteq> options (defaultOptions 20 (Obj 5 [(''settle'', Bool True)])
                 \<lparr>options = Undefined, listeners = []\<rparr>)"
    by code_simp
  with defaultOptions_deep_equal [of 0 "Obj 5 [(''settle'', Bool True)]"
      "\<lparr>options = Undefined, listeners = []\<rparr>" 20]
  show ?thesis by blast
qed

section \<open>Properties of \<open>wrapIterator\<close>\<close>

text \<open>
  Claim C5. Whenever the first argument is not a function, \<open>wrapIterator\<close> throws the
  \<open>TypeError\<close> and the instance is as it was: no options were merged and no listener
  was registered. It returns no decorated function, so nothing is reported through a
  callback. Both modules behave so.
\<close>

theorem wrapIterator_rejects_non_function:
  assumes "typeof iterator \<noteq> ''function''"
  shows "wrapIterator a iterator optionsArg self = (Inl (TypeError expect_function), self)
       \<and> wrapIterator0 iterator optionsArg self = (Inl (TypeError expect_function), self)"
  using assms by (simp add: wrapIterator_def wrapIterator0_def)

theorem wrapIterator_rejects_non_function_witness:
  "typeof (Str ''stat'') \<noteq> ''function''
   \<and> wrapIterator 10 (Str ''stat'') (Obj 7 [(''settle'', Bool True), (''error'', Fun 3)])
         \<lparr>options = Obj 0 [(''emitter'', Obj 1 []), (''settle'', Bool False)],
            listeners = []\<rparr>
       = (Inl (TypeError expect_function),
          \<lparr>options = Obj 0 [(''emitter'', Obj 1 []), (''settle'', Bool False)],
             listeners = []\<rparr>)
   \<and> wrapIterator0 (Str ''stat'') (Obj 7 [(''settle'', Bool True), (''error'', Fun 3)])
         \<lparr>options = Obj 0 [(''emitter'', Obj 1 []), (''settle'', Bool False)],
            listeners = []\<rparr>
       = (Inl (TypeError expect_function),
          \<lparr>options = Obj 0 [(''emitter'', Obj 1 []), (''settle'', Bool False)],
             listeners = []\<rparr>)"
proof -
  have h: "typeof (Str ''stat'') \<noteq> ''function''" by simp
  show ?thesis using h wrapIterator_rejects_non_function [OF h] by simp
qed

text \<open>What a successful call of \<open>wrapIterator\<close> returns, in each module.\<close>

lemma register_hooks_options [simp]: "options (register_hooks names self) = options self"
  by (induction names arbitrary: self) (simp_all add: on_def)

lemma register_hooks_listeners:
  "listeners (register_hooks names self) =
     listeners self @
     map (\<lambda>name. (name, get (options self) name))
       (filter (\<lambda>name. typeof (get (options self) name) = ''function'') names)"
  by (induction names arbitrary: self) (simp_all add: on_def)

lemma wrapIterator_Inr:
  assumes "wrapIterator a iterator optionsArg self = (Inr d, self')"
  obtains oa ops where "typeof iterator = ''function''" and "options self = Obj oa ops"
    and "d = Decorated iterator"
    and "self' = register_hooks hooks (self\<lparr>options :=
           (if truthy optionsArg
            then Obj (Suc a) (AList.update ''context''
                   (Obj a (extend [] [lookup ops ''context'', get optionsArg ''context'']))
                   (extend [] [Obj oa ops, optionsArg]))
            else Obj oa (AList.update ''context'' (lookup ops ''context'') ops))\<rparr>)"
proof -
  from assms have f: "typeof iterator = ''function''"
    by (cases "typeof iterator = ''function''") (simp_all add: wrapIterator_def)
  from assms f obtain oa ops where o: "options self = Obj oa ops"
    by (cases "options self") (simp_all add: wrapIterator_def)
  from assms f o have "d = Decorated iterator"
    by (simp add: wrapIterator_def Let_def)
  moreover from assms f o have
    "self' = register_hooks hooks (self\<lparr>options :=
           (if truthy optionsArg
            then Obj (Suc a) (AList.update ''context''
                   (Obj a (extend [] [lookup ops ''context'', get optionsArg ''context'']))
                   (extend [] [Obj oa ops, optionsArg]))
            else Obj oa (AList.update ''context'' (lookup ops ''context'') ops))\<rparr>)"
    by (cases "truthy optionsArg") (auto simp add: wrapIterator_def Let_def)
  ultimately show thesis using that f o by blast
qed

lemma hooks_chain:
  "register_hooks hooks s1 =
     (let s2 = (if typeof (get (options s1) ''beforeEach'') = ''function''
                then on ''beforeEach'' (get (options s1) ''beforeEach'') s1 else s1);
          s3 = (if typeof (get (options s2) ''afterEach'') = ''function''
                then on ''afterEach'' (get (options s2) ''afterEach'') s2 else s2);
          s4 = (if typeof (get (options s3) ''error'') = ''function''
                then on ''error'' (get (options s3) ''error'') s3 else s3)
      in s4)"
  unfolding hooks_def Let_def register_hooks.simps ..

lemma wrapIterator0_Inr:
  assumes "wrapIterator0 iterator optionsArg self = (Inr d, self')"
  obtains oa ops where "typeof iterator = ''function''" and "options self = Obj oa ops"
    and "d = Decorated iterator"
    and "self' = register_hooks hooks (self\<lparr>options :=
           (if truthy optionsArg then Obj oa (extend ops [optionsArg]) else Obj oa ops)\<rparr>)"
proof -
  from assms have f: "typeof iterator = ''function''"
    by (cases "typeof iterator = ''function''") (simp_all add: wrapIterator0_def)
  from assms f obtain oa ops where o: "options self = Obj oa ops"
    by (cases "options self") (simp_all add: wrapIterator0_def)
  have "wrapIterator0 iterator optionsArg self =
          (Inr (Decorated iterator), register_hooks hooks (self\<lparr>options :=
           (if truthy optionsArg then Obj oa (extend ops [optionsArg]) else Obj oa ops)\<rparr>))"
    unfolding wrapIterator0_def hooks_chain using f o by (simp add: Let_def)
  with assms have "d = Decorated iterator"
    and "self' = register_hooks hooks (self\<lparr>options :=
           (if truthy optionsArg then Obj oa (extend ops [optionsArg]) else Obj oa ops)\<rparr>)"
    by simp_all
  then show thesis using that f o by blast
qed

lemma found_hooks_registered:
  "listeners (register_hooks hooks s) = listeners s @ found_hooks (options (register_hooks hooks s))"
  by (simp add: register_hooks_listeners found_hooks_def)

text \<open>
  Claim C7. In a call of \<open>wrapIterator\<close> that returns, the listeners afterwards are the
  listeners before, in their order, followed by one listener for each of \<open>beforeEach\<close>,
  \<open>afterEach\<close> and \<open>error\<close> under which the resolved options hold a function. No
  earlier listener is replaced or removed. Both modules behave so.
\<close>

theorem wrapIterator_registers_hooks:
  "(wrapIterator a iterator optionsArg self = (Inr d, self') \<longrightarrow>
      listeners self' = listeners self @ found_hooks (options self'))
   \<and> (wrapIterator0 iterator optionsArg self = (Inr d, self') \<longrightarrow>
      listeners self' = listeners self @ found_hooks (options self'))"
proof (intro conjI impI)
  assume "wrapIterator a iterator optionsArg self = (Inr d, self')"
  then obtain m where "self' = register_hooks hooks (self\<lparr>options := m\<rparr>)"
    by (rule wrapIterator_Inr)
  then show "listeners self' = listeners self @ found_hooks (options self')"
    using found_hooks_registered [of "self\<lparr>options := m\<rparr>"] by simp
next
  assume "wrapIterator0 iterator optionsArg self = (Inr d, self')"
  then obtain m where "self' = register_hooks hooks (self\<lparr>options := m\<rparr>)"
    by (rule wrapIterator0_Inr)
  then show "listeners self' = listeners self @ found_hooks (options self')"
    using found_hooks_registered [of "self\<lparr>options := m\<rparr>"] by simp
qed

theorem wrapIterator_registers_hooks_witness:
  "wrapIterator 10 (Fun 0) (Obj 6 [(''afterEach'', Fun 2)])
       \<lparr>options = Obj 0 [(''emitter'', Obj 1 []), (''settle'', Bool False), (''beforeEach'', Fun 1)],
          listeners = [(''beforeEach'', Fun 1)]\<rparr>
     = (Inr (Decorated (Fun 0)),
        \<lparr>options = Obj 11 [(''emitter'', Obj 1 []), (''settle'', Bool False),
                     (''beforeEach'', Fun 1), (''afterEach'', Fun 2), (''context'', Obj 10 [])],
           listeners = [(''beforeEach'', Fun 1), (''beforeEach'', Fun 1), (''afterEach'', Fun 2)]\<rparr>)
   \<and> [(''beforeEach'', Fun 1), (''beforeEach'', Fun 1), (''afterEach'', Fun 2)]
       = [(''beforeEach'', Fun 1)] @
         found_hooks (Obj 11 [(''emitter'', Obj 1 []), (''settle'', Bool False),
                     (''beforeEach'', Fun 1), (''afterEach'', Fun 2), (''context'', Obj 10 [])])
   \<and> wrapIterator0 (Fun 0) (Obj 6 [(''afterEach'', Fun 2)])
       \<lparr>options = Obj 0 [(''settle'', Bool False), (''beforeEach'', Fun 1)],
          listeners = [(''beforeEach'', Fun 1)]\<rparr>
     = (Inr (Decorated (Fun 0)),
        \<lparr>options = Obj 0 [(''settle'', Bool False), (''beforeEach'', Fun 1), (''afterEach'', Fun 2)],
           listeners = [(''beforeEach'', Fun 1), (''beforeEach'', Fun 1), (''afterEach'', Fun 2)]\<rparr>)
   \<and> [(''beforeEach'', Fun 1), (''beforeEach'', Fun 1), (''afterEach'', Fun 2)]
       = [(''beforeEach'', Fun 1)] @
         found_hooks (Obj 0 [(''settle'', Bool False), (''beforeEach'', Fun 1),
                     (''afterEach'', Fun 2)])"
proof -
  let ?S = "\<lparr>options = Obj 0 [(''emitter'', Obj 1 []), (''settle'', Bool False), (''beforeEach'', Fun 1)],
          listeners = [(''beforeEach'', Fun 1)]\<rparr>"
  let ?S' = "\<lparr>options = Obj 11 [(''emitter'', Obj 1 []), (''settle'', Bool False),
                     (''beforeEach'', Fun 1), (''afterEach'', Fun 2), (''context'', Obj 10 [])],
           listeners = [(''beforeEach'', Fun 1), (''beforeEach'', Fun 1), (''afterEach'', Fun 2)]\<rparr>"
  let ?T = "\<lparr>options = Obj 0 [(''settle'', Bool False), (''beforeEach'', Fun 1)],
          listeners = [(''beforeEach'', Fun 1)]\<rparr>"
  let ?T' = "\<lparr>options = Obj 0 [(''settle'', Bool False), (''beforeEach'', Fun 1), (''afterEach'', Fun 2)],
           listeners = [(''beforeEach'', Fun 1), (''beforeEach'', Fun 1), (''afterEach'', Fun 2)]\<rparr>"
  have 1: "wrapIterator 10 (Fun 0) (Obj 6 [(''afterEach'', Fun 2)]) ?S
             = (Inr (Decorated (Fun 0)), ?S')"
    by code_simp
  have 2: "wrapIterator0 (Fun 0) (Obj 6 [(''afterEach'', Fun 2)]) ?T
             = (Inr (Decorated (Fun 0)), ?T')"
    by code_simp
  from 1 wrapIterator_registers_hooks [of 10 "Fun 0" "Obj 6 [(''afterEach'', Fun 2)]" ?S "Decorated (Fun 0)" ?S']
  have 3: "listeners ?S' = listeners ?S @ found_hooks (options ?S')" by blast
  from 2 wrapIterator_registers_hooks [of 10 "Fun 0" "Obj 6 [(''afterEach'', Fun 2)]" ?T "Decorated (Fun 0)" ?T']
  have 4: "listeners ?T' = listeners ?T @ found_hooks (options ?T')" by blast
  from 1 2 3 4 show ?thesis by simp
qed

lemma count_found_hooks:
  "h \<in> set hooks \<Longrightarrow> typeof (get opts h) = ''function'' \<Longrightarrow>
     count_list (found_hooks opts) (h, get opts h) = 1"
  by (auto simp: found_hooks_def hooks_def)

lemma hook_not_context: "h \<in> set hooks \<Longrightarrow> h \<noteq> ''context''"
  by (auto simp: hooks_def)

lemma get_kept_index:
  assumes "h \<noteq> ''context''" and "own optionsArg h = None"
  shows "get (if truthy optionsArg
              then Obj (Suc a) (AList.update ''context'' ctx (extend [] [Obj oa ops, optionsArg]))
              else Obj oa (AList.update ''context'' ctx' ops)) h = get (Obj oa ops) h"
  using assms by (simp add: get_def update_conv' map_of_extend2 split: option.splits)

lemma get_kept_part:
  assumes "own optionsArg h = None"
  shows "get (if truthy optionsArg then Obj oa (extend ops [optionsArg]) else Obj oa ops) h
           = get (Obj oa ops) h"
  using assms by (simp add: get_def map_of_extend1 split: option.splits)

lemma registered_once_more:
  assumes "h \<in> set hooks" and "typeof (get m h) = ''function''"
    and "self' = register_hooks hooks (self\<lparr>options := m\<rparr>)"
  shows "count_list (listeners self') (h, get m h) = Suc (count_list (listeners self) (h, get m h))"
proof -
  have "listeners self' = listeners self @ found_hooks m"
    using assms(3) found_hooks_registered [of "self\<lparr>options := m\<rparr>"] by simp
  then show ?thesis
    using count_found_hooks [OF assms(1,2)] by simp
qed

text \<open>
  Claim C10, as the code has it. A function stored under a hook name in the options of
  the instance stays stored across a call of \<open>wrapIterator\<close> whose \<open>options\<close> argument
  holds no property of that name, and the call registers it once more: such a function
  is registered once per call, not once overall.
\<close>

theorem stored_hook_registered_again:
  assumes "h \<in> set hooks" and "typeof (get (options self) h) = ''function''"
    and "own optionsArg h = None"
  shows "(wrapIterator a iterator optionsArg self = (Inr d, self') \<longrightarrow>
            get (options self') h = get (options self) h
          \<and> count_list (listeners self') (h, get (options self) h) =
              Suc (count_list (listeners self) (h, get (options self) h)))
       \<and> (wrapIterator0 iterator optionsArg self = (Inr d, self') \<longrightarrow>
            get (options self') h = get (options self) h
          \<and> count_list (listeners self') (h, get (options self) h) =
              Suc (count_list (listeners self) (h, get (options self) h)))"
proof (intro conjI impI)
  assume w: "wrapIterator a iterator optionsArg self = (Inr d, self')"
  from w obtain oa ops m where o: "options self = Obj oa ops"
    and m: "m = (if truthy optionsArg
            then Obj (Suc a) (AList.update ''context''
                   (Obj a (extend [] [lookup ops ''context'', get optionsArg ''context'']))
                   (extend [] [Obj oa ops, optionsArg]))
            else Obj oa (AList.update ''context'' (lookup ops ''context'') ops))"
    and s: "self' = register_hooks hooks (self\<lparr>options := m\<rparr>)"
    by (rule wrapIterator_Inr) simp
  have g: "get m h = get (options self) h"
    unfolding m o using hook_not_context [OF assms(1)] assms(3) by (rule get_kept_index)
  from s show "get (options self') h = get (options self) h" by (simp add: g)
  show "count_list (listeners self') (h, get (options self) h) =
          Suc (count_list (listeners self) (h, get (options self) h))"
    using registered_once_more [OF assms(1) _ s] assms(2) g by simp
next
  assume w: "wrapIterator0 iterator optionsArg self = (Inr d, self')"
  from w obtain oa ops m where o: "options self = Obj oa ops"
    and m: "m = (if truthy optionsArg then Obj oa (extend ops [optionsArg]) else Obj oa ops)"
    and s: "self' = register_hooks hooks (self\<lparr>options := m\<rparr>)"
    by (rule wrapIterator0_Inr) simp
  have g: "get m h = get (options self) h"
    unfolding m o using assms(3) by (rule get_kept_part)
  from s show "get (options self') h = get (options self) h" by (simp add: g)
  show "count_list (listeners self') (h, get (options self) h) =
          Suc (count_list (listeners self) (h, get (options self) h))"
    using registered_once_more [OF assms(1) _ s] assms(2) g by simp
qed

theorem stored_hook_registered_again_witness:
  "''beforeEach'' \<in> set hooks
   \<and> typeof (get (options (AsyncSimpleIterator 0 (Obj 5 [(''beforeEach'', Fun 1)]))) ''beforeEach'')
       = ''function''
   \<and> own Undefined ''beforeEach'' = None
   \<and> fst (wrapIterator 10 (Fun 0) Undefined
            (AsyncSimpleIterator 0 (Obj 5 [(''beforeEach'', Fun 1)]))) = Inr (Decorated (Fun 0))
   \<and> get (options (snd (wrapIterator 10 (Fun 0) Undefined
            (AsyncSimpleIterator 0 (Obj 5 [(''beforeEach'', Fun 1)]))))) ''beforeEach'' = Fun 1
   \<and> count_list (listeners (snd (wrapIterator 10 (Fun 0) Undefined
            (AsyncSimpleIterator 0 (Obj 5 [(''beforeEach'', Fun 1)]))))) (''beforeEach'', Fun 1)
       = Suc (count_list (listeners (AsyncSimpleIterator 0 (Obj 5 [(''beforeEach'', Fun 1)])))
                (''beforeEach'', Fun 1))"
proof -
  let ?S = "AsyncSimpleIterator 0 (Obj 5 [(''beforeEach'', Fun 1)])"
  let ?W = "wrapIterator 10 (Fun 0) Undefined ?S"
  have h1: "''beforeEach'' \<in> set hooks" by (simp add: hooks_def)
  have g: "get (options ?S) ''beforeEach'' = Fun 1" by code_simp
  have h2: "typeof (get (options ?S) ''beforeEach'') = ''function''" unfolding g by simp
  have h3: "own Undefined ''beforeEach'' = None" by simp
  have w: "fst ?W = Inr (Decorated (Fun 0))" by code_simp
  then have w': "?W = (Inr (Decorated (Fun 0)), snd ?W)" by (simp add: prod_eq_iff)
  from stored_hook_registered_again [OF h1 h2 h3, of 10 "Fun 0" "Decorated (Fun 0)" "snd ?W"] w'
  have "get (options (snd ?W)) ''beforeEach'' = get (options ?S) ''beforeEach''
      \<and> count_list (listeners (snd ?W)) (''beforeEach'', get (options ?S) ''beforeEach'') =
          Suc (count_list (listeners ?S) (''beforeEach'', get (options ?S) ''beforeEach''))"
    by blast
  with h1 h2 h3 w g show ?thesis by simp
qed

text \<open>
  Claim C10 as stated, for any earlier hook and any later call, fails: a call that
  itself supplies \<open>beforeEach\<close> replaces the stored function, and it is the new function
  that the call registers.
\<close>

theorem stored_hook_replaced_counterexample:
  "get (options (snd (wrapIterator 10 (Fun 0) (Obj 6 [(''beforeEach'', Fun 2)])
          (AsyncSimpleIterator 0 (Obj 5 [(''beforeEach'', Fun 1)]))))) ''beforeEach'' = Fun 2
   \<and> listeners (snd (wrapIterator 10 (Fun 0) (Obj 6 [(''beforeEach'', Fun 2)])
          (AsyncSimpleIterator 0 (Obj 5 [(''beforeEach'', Fun 1)])))) = [(''beforeEach'', Fun 2)]
   \<and> get (options (snd (wrapIterator0 (Fun 0) (Obj 6 [(''beforeEach'', Fun 2)])
          (AsyncSimpleIterator0 0 (Obj 5 [(''beforeEach'', Fun 1)]))))) ''beforeEach'' = Fun 2
   \<and> listeners (snd (wrapIterator0 (Fun 0) (Obj 6 [(''beforeEach'', Fun 2)])
          (AsyncSimpleIterator0 0 (Obj 5 [(''beforeEach'', Fun 1)])))) = [(''beforeEach'', Fun 2)]"
  by code_simp

text \<open>
  Claim C3 at \<open>new AsyncSimpleIterator().wrapIterator(fn, {settle: 'true'})\<close>:
  \<open>wrapIterator\<close> merges the options without the coercion of \<open>defaultOptions\<close>, and
  \<open>settle\<close> is the string afterwards, in both modules.
\<close>

theorem wrapIterator_keeps_non_boolean_settle:
  "get (options (snd (wrapIterator 10 (Fun 0) (Obj 5 [(''settle'', Str ''true'')])
          (AsyncSimpleIterator 0 Undefined)))) ''settle'' = Str ''true''
   \<and> get (options (snd (wrapIterator0 (Fun 0) (Obj 5 [(''settle'', Str ''true'')])
          (AsyncSimpleIterator0 0 Undefined)))) ''settle'' = Str ''true''"
  by code_simp

end
